theory Spec2Isabelle
  imports Main "HOL-Library.Word"
begin

unbundle bit_operations_syntax

section \<open>Data model (src/pam2qoi.cpp, class Image)\<close>

text \<open>
  Machine types of the source on an LP64 platform: \<open>std::uint8_t\<close> is an 8-bit word,
  \<open>unsigned int\<close> a 32-bit word, \<open>std::size_t\<close> and \<open>unsigned long\<close> 64-bit words.
  All word arithmetic wraps around, as the unsigned arithmetic of the source does.
\<close>

type_synonym u8 = "8 word"
type_synonym u32 = "32 word"
type_synonym size_t = "64 word"

text \<open>
  \<open>struct Pixel\<close> with its default member initialisers \<open>r = 0, g = 0, b = 0, a = 255\<close>;
  \<open>default_pixel\<close> is the value-initialised pixel \<open>Pixel{}\<close>.
\<close>

record Pixel =
  r :: u8
  g :: u8
  b :: u8
  a :: u8

definition default_pixel :: Pixel where
  "default_pixel = \<lparr>r = 0, g = 0, b = 0, a = 255\<rparr>"

text \<open>
  \<open>class Image\<close>; the members \<open>width_\<close>, \<open>height_\<close> and \<open>pixels_\<close> lose their trailing
  underscore, which Isabelle does not accept in a name, and a variable \<open>image\<close> of the
  source is written \<open>img\<close>, since \<open>image\<close> is a constant of HOL.
\<close>

record Image =
  width :: size_t
  height :: size_t
  pixels :: "Pixel list"

text \<open>
  The class invariant set up by \<open>clearAndInitialize\<close>: the vector holds one pixel per
  coordinate. The product is the mathematical one, and a vector's size fits \<open>size_t\<close>.
\<close>

definition valid_image :: "Image \<Rightarrow> bool" where
  "valid_image img \<longleftrightarrow>
     length (pixels img) = unat (width img) * unat (height img)
     \<and> int (length (pixels img)) < 2 ^ 64"


text \<open>
  \<open>getPixel\<close>. The vector subscript \<open>pixels_[width_ * y + x]\<close> is computed in \<open>size_t\<close>;
  a subscript beyond the vector is undefined behaviour in C++ and is \<open>None\<close> here.
  Outside the image the function returns \<open>Pixel{}\<close>.
\<close>

definition getPixel :: "Image \<Rightarrow> size_t \<Rightarrow> size_t \<Rightarrow> Pixel option" where
  "getPixel img x y =
     (if x < width img \<and> y < height img then
        (let i = unat (width img * y + x)
         in if i < length (pixels img) then Some (pixels img ! i) else None)
      else Some default_pixel)"

section \<open>The chunk encoder (encodeQoi)\<close>

text \<open>
  The opcodes the encoder pushes onto \<open>res\<close>, one constructor per group of
  \<open>push_back\<close> calls of the loop body, and \<open>bytes_of\<close>, the bytes each group pushes.
  Integer expressions of the source are evaluated in \<open>int\<close> (the operands are promoted)
  and truncated to a byte by \<open>push_back\<close>.
\<close>

datatype opcode =
    INDEX nat
  | DIFF int int int
  | LUMA int int int
  | RUN u8
  | LONG_RUN
  | RGB Pixel
  | RGBA Pixel

definition tag_INDEX :: int where "tag_INDEX = 0x00"
definition tag_DIFF :: int where "tag_DIFF = 0x40"
definition tag_LUMA :: int where "tag_LUMA = 0x80"
definition tag_RUN :: int where "tag_RUN = 0xC0"
definition tag_LONG_RUN :: int where "tag_LONG_RUN = 0xFD"
definition tag_RGB :: int where "tag_RGB = 0xFE"
definition tag_RGBA :: int where "tag_RGBA = 0xFF"

definition byte :: "int \<Rightarrow> u8" where
  "byte i = word_of_int i"

fun bytes_of :: "opcode \<Rightarrow> u8 list" where
  "bytes_of (INDEX hash) = [byte (tag_INDEX OR int hash)]"
| "bytes_of (DIFF vr vg vb) =
     [byte (tag_DIFF OR push_bit 4 (vr + 2) OR push_bit 2 (vg + 2) OR (vb + 2))]"
| "bytes_of (LUMA vg vg_r vg_b) =
     [byte (tag_LUMA OR (vg + 32)), byte (push_bit 4 (vg_r + 8) OR (vg_b + 8))]"
| "bytes_of (RUN n) = [byte (tag_RUN OR (uint n - 1))]"
| "bytes_of LONG_RUN = [byte tag_LONG_RUN]"
| "bytes_of (RGB pixel) = [byte tag_RGB, r pixel, g pixel, b pixel]"
| "bytes_of (RGBA pixel) = [byte tag_RGBA, r pixel, g pixel, b pixel, a pixel]"

definition serialise :: "opcode list \<Rightarrow> u8 list" where
  "serialise ops = concat (map bytes_of ops)"

text \<open>
  The codec state of one invocation: the opcodes pushed so far by the loop, the index
  table \<open>std::array<std::optional<Pixel>, 64>\<close>, the previous pixel and the run counter.
  The string \<open>res\<close> of the source is the header, if any, followed by \<open>serialise\<close> of
  the field \<open>res\<close>.
\<close>

record enc_state =
  res :: "opcode list"
  index :: "Pixel option list"
  previous_pixel :: Pixel
  run :: u8

text \<open>
  The state before the first pixel: the table is filled with \<open>Pixel{0, 0, 0, 0}\<close> only
  when \<open>start_y == 0\<close>; \<open>previous_pixel\<close> is default-constructed; \<open>run = 0\<close>.
\<close>

definition init_state :: "size_t \<Rightarrow> enc_state" where
  "init_state start_y =
     \<lparr>res = [],
      index = (if start_y = 0 then replicate 64 (Some \<lparr>r = 0, g = 0, b = 0, a = 0\<rparr>)
               else replicate 64 None),
      previous_pixel = default_pixel,
      run = 0\<rparr>"

text \<open>Conversion of an \<open>int\<close> to \<open>std::int8_t\<close>, and the lambda \<open>is_within\<close>.\<close>

definition to_int8 :: "int \<Rightarrow> int" where
  "to_int8 i = sint (word_of_int i :: 8 word)"

definition is_within :: "int \<Rightarrow> int \<Rightarrow> int \<Rightarrow> bool" where
  "is_within v low high \<longleftrightarrow> v \<ge> low \<and> v \<le> high"

definition pixel_hash :: "Pixel \<Rightarrow> nat" where
  "pixel_hash pixel =
     (unat (r pixel) * 3 + unat (g pixel) * 5 + unat (b pixel) * 7 + unat (a pixel) * 11) mod 64"

text \<open>The pending run is flushed before any other opcode, and after the loop.\<close>

definition flush_run :: "enc_state \<Rightarrow> enc_state" where
  "flush_run st =
     (if run st \<noteq> 0 then st\<lparr>res := res st @ [RUN (run st)], run := 0\<rparr> else st)"

text \<open>The body of the inner loop for one pixel.\<close>

definition encode_pixel :: "enc_state \<Rightarrow> Pixel \<Rightarrow> enc_state" where
  "encode_pixel st pixel =
     (if pixel = previous_pixel st then
        (let st1 = st\<lparr>run := run st + 1\<rparr>
         in if run st1 = 62 then st1\<lparr>res := res st1 @ [LONG_RUN], run := 0\<rparr> else st1)
      else
        (let st1 = flush_run st;
             hash = pixel_hash pixel
         in if index st1 ! hash = Some pixel then
              st1\<lparr>res := res st1 @ [INDEX hash], previous_pixel := pixel\<rparr>
            else
              (let st2 = st1\<lparr>index := (index st1)[hash := Some pixel]\<rparr>
               in if a pixel \<noteq> a (previous_pixel st2) then
                    st2\<lparr>res := res st2 @ [RGBA pixel], previous_pixel := pixel\<rparr>
                  else
                    (let vr = to_int8 (uint (r pixel) - uint (r (previous_pixel st2)));
                         vg = to_int8 (uint (g pixel) - uint (g (previous_pixel st2)));
                         vb = to_int8 (uint (b pixel) - uint (b (previous_pixel st2)));
                         st3 = st2\<lparr>previous_pixel := pixel\<rparr>
                     in if is_within vr (-2) 1 \<and> is_within vg (-2) 1 \<and> is_within vb (-2) 1 then
                          st3\<lparr>res := res st3 @ [DIFF vr vg vb]\<rparr>
                        else
                          (let vg_r = to_int8 (vr - vg);
                               vg_b = to_int8 (vb - vg)
                           in if is_within vg_r (-8) 7 \<and> is_within vg (-32) 31
                                 \<and> is_within vg_b (-8) 7 then
                                st3\<lparr>res := res st3 @ [LUMA vg vg_r vg_b]\<rparr>
                              else
                                st3\<lparr>res := res st3 @ [RGB pixel]\<rparr>)))))"

text \<open>
  The two loops. The inner loop visits \<open>x = 0 .. width - 1\<close>, the outer one
  \<open>y = start_y, start_y + 1, ...\<close> while \<open>y < end_y && y < height\<close>; neither counter can
  wrap, since both stay below a \<open>size_t\<close> value. A failed vector read aborts the run.
\<close>

fun encode_row :: "Image \<Rightarrow> size_t \<Rightarrow> nat list \<Rightarrow> enc_state \<Rightarrow> enc_state option" where
  "encode_row img y [] st = Some st"
| "encode_row img y (x # xs) st =
     (case getPixel img (of_nat x) y of
        None \<Rightarrow> None
      | Some pixel \<Rightarrow> encode_row img y xs (encode_pixel st pixel))"

fun encode_rows :: "Image \<Rightarrow> nat list \<Rightarrow> enc_state \<Rightarrow> enc_state option" where
  "encode_rows img [] st = Some st"
| "encode_rows img (y # ys) st =
     (case encode_row img (of_nat y) [0 ..< unat (width img)] st of
        None \<Rightarrow> None
      | Some st' \<Rightarrow> encode_rows img ys st')"

definition row_range :: "Image \<Rightarrow> size_t \<Rightarrow> size_t \<Rightarrow> nat list" where
  "row_range img start_y end_y =
     [unat start_y ..< min (unat end_y) (unat (height img))]"

text \<open>The header, pushed when \<open>start_y == 0\<close>; \<open>encode_be\<close> takes a \<open>std::uint32_t\<close>.\<close>

definition encode_be :: "u32 \<Rightarrow> u8 list" where
  "encode_be v = [ucast (drop_bit 24 v), ucast (drop_bit 16 v), ucast (drop_bit 8 v), ucast v]"

definition header :: "Image \<Rightarrow> u8 list" where
  "header img =
     [0x71, 0x6F, 0x69, 0x66] @ encode_be (ucast (width img))
       @ encode_be (ucast (height img)) @ [4, 0]"

definition end_marker :: "u8 list" where
  "end_marker = replicate 7 0 @ [1]"

text \<open>
  The opcodes of the body: the loops, then the flush of a pending run.
\<close>

definition encode_ops :: "Image \<Rightarrow> size_t \<Rightarrow> size_t \<Rightarrow> opcode list option" where
  "encode_ops img start_y end_y =
     (case encode_rows img (row_range img start_y end_y) (init_state start_y) of
        None \<Rightarrow> None
      | Some st \<Rightarrow> Some (res (flush_run st)))"

text \<open>
  The exceptions of the program: those of \<open>std::stoul\<close>, the \<open>std::length_error\<close> of
  \<open>std::string::reserve\<close>, and the \<open>std::runtime_error\<close> of \<open>readPam\<close> and \<open>main\<close> with
  its message.
\<close>

datatype error = invalid_argument | out_of_range | length_error | runtime_error string

text \<open>
  \<open>res.reserve((end_y - start_y) * image.getWidth() * 4 * 2 / 3)\<close>: the argument is a
  \<open>size_t\<close> expression, evaluated from left to right with wrap-around, and
  \<open>std::string::reserve\<close> throws \<open>std::length_error\<close> when it exceeds \<open>max_size()\<close>. That
  bound is implementation-defined; it is \<open>2^62 - 1\<close> in libstdc++ on LP64, the value
  taken here. What depends on the host is not modelled: a request within the bound
  that the allocator cannot serve (\<open>std::bad_alloc\<close>, also from \<open>push_back\<close>), and a
  thread that \<open>std::async\<close> cannot start. The properties below that say that a call
  returns are therefore stated for row ranges inside the image, whose reservation is
  smaller than the pixel buffer the image already occupies.
\<close>

definition string_max_size :: int where
  "string_max_size = 2 ^ 62 - 1"

definition reserve_request :: "Image \<Rightarrow> size_t \<Rightarrow> size_t \<Rightarrow> size_t" where
  "reserve_request img start_y end_y = ((end_y - start_y) * width img * 4 * 2) div 3"

text \<open>
  \<open>encodeQoi\<close>: the reservation, then the header if \<open>start_y == 0\<close>, the body, and the
  end marker if \<open>end_y + 1 >= image.getHeight()\<close> (a \<open>size_t\<close> sum, which wraps). The
  result is \<open>Some (Inr bytes)\<close> when the call returns, \<open>Some (Inl e)\<close> when it throws
  \<open>e\<close>, and \<open>None\<close> when it reads beyond the pixel vector.
\<close>

definition encodeQoi :: "Image \<Rightarrow> size_t \<Rightarrow> size_t \<Rightarrow> (error + u8 list) option" where
  "encodeQoi img start_y end_y =
     (if uint (reserve_request img start_y end_y) > string_max_size then Some (Inl length_error)
      else
        (case encode_ops img start_y end_y of
           None \<Rightarrow> None
         | Some ops \<Rightarrow>
             Some (Inr ((if start_y = 0 then header img else [])
                        @ serialise ops
                        @ (if end_y + 1 \<ge> height img then end_marker else [])))))"

section \<open>Chunk planning and dispatch (main)\<close>

text \<open>
  The \<open>for\<close> loop of \<open>main\<close> that launches one task per chunk; \<open>results\<close> collects the
  row ranges in launch order. All four counters are \<open>size_t\<close>, so \<open>end_y += lines_per_pack\<close>
  wraps. A run of the loop that never ends has the value \<open>None\<close>.
\<close>

partial_function (option) pack_loop ::
  "size_t \<Rightarrow> size_t \<Rightarrow> size_t \<Rightarrow> size_t \<Rightarrow> (size_t \<times> size_t) list
     \<Rightarrow> (size_t \<times> size_t) list option" where
  "pack_loop h lines_per_pack start_y end_y results =
     (if start_y < h then
        pack_loop h lines_per_pack end_y (end_y + lines_per_pack) (results @ [(start_y, end_y)])
      else Some results)"

declare pack_loop.simps [code]

text \<open>
  The row ranges for \<open>threads >= 2\<close>. \<open>getHeight() / threads\<close> and
  \<open>(threads - 1) * lines_per_pack\<close> convert the \<open>unsigned int\<close> operand to \<open>size_t\<close>;
  \<open>threads - 1\<close> itself is an \<open>unsigned int\<close> difference.
\<close>

definition planned_chunks :: "size_t \<Rightarrow> u32 \<Rightarrow> (size_t \<times> size_t) list option" where
  "planned_chunks h threads =
     (let lines_per_pack = max 1 (h div ucast threads);
          lines_first_pack = h - ucast (threads - 1) * lines_per_pack
      in pack_loop h lines_per_pack 0 lines_first_pack [])"

text \<open>
  What a run of the program shows: the bytes written to \<open>std::cout\<close>, and the exception
  that reached the handler of \<open>main\<close>, if any (exit status 1 then, 0 otherwise).

  Joining the futures in launch order, \<open>std::cout << result.get()\<close>: each result is
  written as it is joined, and \<open>get\<close> rethrows the exception of a task, which ends the
  loop with the earlier results already written. The tasks are all launched before the
  first join and are pure functions of the constant image, so their interleaving is
  not modelled; a task that reads beyond the pixel vector leaves the whole run
  undefined (\<open>None\<close>), wherever it stands in the list.
\<close>

type_synonym run_result = "u8 list \<times> error option"

fun join_results :: "(error + u8 list) option list \<Rightarrow> run_result option" where
  "join_results [] = Some ([], None)"
| "join_results (x # xs) =
     (case x of
        None \<Rightarrow> None
      | Some (Inl e) \<Rightarrow> (if None \<in> set xs then None else Some ([], Some e))
      | Some (Inr out) \<Rightarrow>
          (case join_results xs of
             None \<Rightarrow> None
           | Some (rest, e) \<Rightarrow> Some (out @ rest, e)))"

text \<open>
  The encoding part of \<open>main\<close>: with fewer than two workers the single call
  \<open>std::cout << encodeQoi(image, 0, image.getHeight())\<close>, otherwise one task per planned
  range. \<open>None\<close> is also the value when the launch loop never ends.
\<close>

definition encode_image :: "u32 \<Rightarrow> Image \<Rightarrow> run_result option" where
  "encode_image threads img =
     (if threads < 2 then join_results [encodeQoi img 0 (height img)]
      else
        (case planned_chunks (height img) threads of
           None \<Rightarrow> None
         | Some ranges \<Rightarrow>
             join_results (map (\<lambda>(start_y, end_y). encodeQoi img start_y end_y) ranges)))"









section \<open>Notions used to state the properties\<close>

text \<open>
  The pixels the two loops visit, in order: row \<open>y\<close> from left to right, for the rows
  of \<open>row_range\<close>.
\<close>

definition row_pixels :: "Image \<Rightarrow> nat \<Rightarrow> Pixel list" where
  "row_pixels img y =
     map (\<lambda>x. pixels img ! (unat (width img) * y + x)) [0 ..< unat (width img)]"

definition chunk_pixels :: "Image \<Rightarrow> size_t \<Rightarrow> size_t \<Rightarrow> Pixel list" where
  "chunk_pixels img start_y end_y =
     concat (map (row_pixels img) (row_range img start_y end_y))"

text \<open>
  The number of pixels an opcode stands for as a run: \<open>RUN n\<close> is pushed for a pending
  counter \<open>n\<close>, \<open>LONG_RUN\<close> when the counter reaches 62.
\<close>

fun run_length :: "opcode \<Rightarrow> nat" where
  "run_length (RUN n) = unat n"
| "run_length LONG_RUN = 62"
| "run_length _ = 0"

text \<open>The first byte an opcode puts on the stream, as a number.\<close>

definition lead :: "opcode \<Rightarrow> int" where
  "lead op = uint (hd (bytes_of op))"

text \<open>
  The operands with which the loop body can push an opcode, and the invariant of the
  codec state that keeps them so.
\<close>

fun op_ok :: "opcode \<Rightarrow> bool" where
  "op_ok (INDEX hash) \<longleftrightarrow> hash < 64"
| "op_ok (DIFF vr vg vb) \<longleftrightarrow>
     is_within vr (-2) 1 \<and> is_within vg (-2) 1 \<and> is_within vb (-2) 1"
| "op_ok (LUMA vg vg_r vg_b) \<longleftrightarrow> is_within vg (-32) 31"
| "op_ok (RUN n) \<longleftrightarrow> 1 \<le> unat n \<and> unat n \<le> 61"
| "op_ok LONG_RUN \<longleftrightarrow> True"
| "op_ok (RGB pixel) \<longleftrightarrow> True"
| "op_ok (RGBA pixel) \<longleftrightarrow> True"

definition enc_inv :: "enc_state \<Rightarrow> bool" where
  "enc_inv st \<longleftrightarrow> unat (run st) < 62 \<and> list_all op_ok (res st)"

text \<open>
  A list of row ranges that runs from row \<open>lo\<close> to row \<open>hi\<close>: each range starts where
  the one before ended (so the ranges neither overlap nor leave a gap) and holds at
  least one row.
\<close>

fun chain :: "nat \<Rightarrow> (size_t \<times> size_t) list \<Rightarrow> nat \<Rightarrow> bool" where
  "chain lo [] hi \<longleftrightarrow> lo = hi"
| "chain lo ((start_y, end_y) # ranges) hi \<longleftrightarrow>
     unat start_y = lo \<and> unat start_y < unat end_y \<and> chain (unat end_y) ranges hi"

section \<open>Reading pixels inside a valid image\<close>

lemma valid_image_bound: "valid_image img \<Longrightarrow> length (pixels img) < 2 ^ 64"
proof -
  assume "valid_image img"
  then have "int (length (pixels img)) < 2 ^ 64"
    unfolding valid_image_def by (rule conjunct2)
  then show ?thesis
    by (simp only: of_nat_less_numeral_power_cancel_iff)
qed

lemma valid_image_length:
  "valid_image img \<Longrightarrow> length (pixels img) = unat (width img) * unat (height img)"
  unfolding valid_image_def by (rule conjunct1)

lemma pixel_index_in_range:
  assumes "valid_image img" "x < unat (width img)" "y < unat (height img)"
  shows "unat (width img) * y + x < length (pixels img)"
proof -
  have "unat (width img) * y + x < unat (width img) * y + unat (width img)"
    using assms(2) by simp
  also have "\<dots> = unat (width img) * Suc y" by simp
  also have "\<dots> \<le> unat (width img) * unat (height img)"
    using assms(3) by (intro mult_le_mono2) simp
  finally show ?thesis using valid_image_length [OF assms(1)] by simp
qed

lemma unat_of_nat_below:
  "n < unat (w :: size_t) \<Longrightarrow> unat (of_nat n :: size_t) = n"
  by (rule le_unat_uoi [where z = w]) simp

lemma getPixel_in_range:
  assumes "valid_image img" "x < unat (width img)" "y < unat (height img)"
  shows "getPixel img (of_nat x) (of_nat y) = Some (pixels img ! (unat (width img) * y + x))"
proof -
  have lt: "unat (width img) * y + x < length (pixels img)"
    using assms by (rule pixel_index_in_range)
  have bound: "unat (width img) * y + x < 2 ^ LENGTH(64)"
    using lt valid_image_bound [OF assms(1)] by simp
  have ux: "unat (of_nat x :: size_t) = x" using assms(2) by (rule unat_of_nat_below)
  have uy: "unat (of_nat y :: size_t) = y" using assms(3) by (rule unat_of_nat_below)
  have xw: "(of_nat x :: size_t) < width img"
    using assms(2) ux by (simp add: word_less_nat_alt)
  have yh: "(of_nat y :: size_t) < height img"
    using assms(3) uy by (simp add: word_less_nat_alt)
  have "unat (width img * of_nat y + of_nat x) = (unat (width img) * y + x) mod 2 ^ LENGTH(64)"
    by (simp only: unat_word_ariths ux uy mod_add_left_eq)
  also have "\<dots> = unat (width img) * y + x"
    using bound by (rule mod_less)
  finally have idx: "unat (width img * of_nat y + of_nat x) = unat (width img) * y + x" .
  show ?thesis
    using xw yh lt by (simp add: getPixel_def idx)
qed

lemma encode_row_valid:
  assumes "valid_image img" "y < unat (height img)"
  shows "\<forall>x\<in>set xs. x < unat (width img) \<Longrightarrow>
         encode_row img (of_nat y) xs st =
           Some (foldl encode_pixel st (map (\<lambda>x. pixels img ! (unat (width img) * y + x)) xs))"
proof (induction xs arbitrary: st)
  case Nil
  show ?case by simp
next
  case (Cons x xs)
  then show ?case
    by (simp add: getPixel_in_range [OF assms(1) _ assms(2)])
qed

lemma encode_rows_valid:
  assumes "valid_image img"
  shows "\<forall>y\<in>set ys. y < unat (height img) \<Longrightarrow>
         encode_rows img ys st =
           Some (foldl encode_pixel st (concat (map (row_pixels img) ys)))"
proof (induction ys arbitrary: st)
  case Nil
  show ?case by simp
next
  case (Cons y ys)
  then show ?case
    by (simp add: encode_row_valid [OF assms] row_pixels_def)
qed

lemma encode_ops_valid:
  assumes "valid_image img"
  shows "encode_ops img start_y end_y =
           Some (res (flush_run (foldl encode_pixel (init_state start_y)
                                   (chunk_pixels img start_y end_y))))"
proof -
  have "\<forall>y\<in>set (row_range img start_y end_y). y < unat (height img)"
    by (simp add: row_range_def)
  then show ?thesis
    by (simp add: encode_ops_def chunk_pixels_def encode_rows_valid [OF assms])
qed

section \<open>The run counter\<close>

lemma encode_pixel_same:
  "encode_pixel st (previous_pixel st) =
     (if run st + 1 = 62 then st\<lparr>run := 0, res := res st @ [LONG_RUN]\<rparr>
      else st\<lparr>run := run st + 1\<rparr>)"
  by (simp add: encode_pixel_def Let_def)

lemma run_succ:
  assumes "unat (n :: u8) < 62"
  shows "unat (n + 1) = Suc (unat n)" "(n + 1 = 62) = (unat n = 61)"
proof -
  show 1: "unat (n + 1) = Suc (unat n)"
    using assms by (simp add: unat_word_ariths)
  show "(n + 1 = 62) = (unat n = 61)"
    using 1 by (simp add: word_unat_eq_iff)
qed

lemma encode_repeat:
  "previous_pixel st = p \<Longrightarrow> unat (run st) < 62 \<Longrightarrow>
     foldl encode_pixel st (replicate n p) =
       st\<lparr>res := res st @ replicate ((unat (run st) + n) div 62) LONG_RUN,
          run := of_nat ((unat (run st) + n) mod 62)\<rparr>"
proof (induction n arbitrary: st)
  case 0
  then show ?case by simp
next
  case (Suc n)
  let ?st1 = "encode_pixel st p"
  have unfold: "foldl encode_pixel st (replicate (Suc n) p) = foldl encode_pixel ?st1 (replicate n p)"
    by simp
  show ?case
  proof (cases "unat (run st) = 61")
    case True
    then have st1: "?st1 = st\<lparr>run := 0, res := res st @ [LONG_RUN]\<rparr>"
      using Suc.prems by (simp add: encode_pixel_same [of st, unfolded Suc.prems(1)] run_succ)
    have "foldl encode_pixel ?st1 (replicate n p) =
            ?st1\<lparr>res := res ?st1 @ replicate ((unat (run ?st1) + n) div 62) LONG_RUN,
                 run := of_nat ((unat (run ?st1) + n) mod 62)\<rparr>"
      by (rule Suc.IH) (simp_all add: st1 Suc.prems)
    also have "\<dots> = st\<lparr>res := res st @ replicate ((unat (run st) + Suc n) div 62) LONG_RUN,
          run := of_nat ((unat (run st) + Suc n) mod 62)\<rparr>"
      using True by (simp add: st1 replicate_append_same flip: replicate_Suc)
    finally show ?thesis by (simp only: unfold)
  next
    case False
    then have lt: "unat (run st) < 61" using Suc.prems by simp
    have st1: "?st1 = st\<lparr>run := run st + 1\<rparr>"
      using Suc.prems False by (simp add: encode_pixel_same [of st, unfolded Suc.prems(1)] run_succ)
    have u: "unat (run st + 1) = Suc (unat (run st))"
      using Suc.prems by (simp add: run_succ)
    have "foldl encode_pixel ?st1 (replicate n p) =
            ?st1\<lparr>res := res ?st1 @ replicate ((unat (run ?st1) + n) div 62) LONG_RUN,
                 run := of_nat ((unat (run ?st1) + n) mod 62)\<rparr>"
      by (rule Suc.IH) (use lt in \<open>simp_all add: st1 Suc.prems u\<close>)
    also have "\<dots> = st\<lparr>res := res st @ replicate ((unat (run st) + Suc n) div 62) LONG_RUN,
          run := of_nat ((unat (run st) + Suc n) mod 62)\<rparr>"
      by (simp add: st1 u)
    finally show ?thesis by (simp only: unfold)
  qed
qed

section \<open>The first byte of each opcode\<close>

lemma or_push_bit_small:
  fixes k m :: int
  assumes "0 \<le> k" "k < 2 ^ n"
  shows "push_bit n m OR k = push_bit n m + k"
proof -
  have k: "take_bit n k = k" using assms by (simp add: take_bit_int_eq_self)
  have "push_bit n m AND take_bit n k = 0"
    by (auto simp add: bit_eq_iff bit_and_iff bit_push_bit_iff bit_take_bit_iff)
  then have "push_bit n m AND k = 0" by (simp only: k)
  then show ?thesis by (rule disjunctive_add_eq_or [symmetric])
qed

lemma uint_byte: "0 \<le> i \<Longrightarrow> i < 256 \<Longrightarrow> uint (byte i) = i"
  by (simp add: byte_def uint_word_of_int)

lemma lead_INDEX: "hash < 64 \<Longrightarrow> lead (INDEX hash) = int hash"
  by (simp add: lead_def tag_INDEX_def uint_byte)

lemma lead_LUMA:
  assumes "is_within vg (-32) 31"
  shows "lead (LUMA vg vg_r vg_b) = 128 + (vg + 32)"
proof -
  have "push_bit 6 2 OR (vg + 32) = push_bit 6 2 + (vg + 32)"
    using assms by (intro or_push_bit_small) (simp_all add: is_within_def)
  then have "(128::int) OR (vg + 32) = 128 + (vg + 32)" by simp
  then show ?thesis
    using assms by (simp add: lead_def tag_LUMA_def uint_byte is_within_def)
qed

lemma lead_RUN:
  assumes "1 \<le> unat n" "unat n \<le> 61"
  shows "lead (RUN n) = 192 + (uint n - 1)"
proof -
  have un: "uint n = int (unat n)" by (rule uint_nat)
  have u: "0 \<le> uint n - 1" "uint n - 1 < 64"
    using assms unfolding un by linarith+
  have "push_bit 6 3 OR (uint n - 1) = push_bit 6 3 + (uint n - 1)"
    using u by (intro or_push_bit_small) simp_all
  then have "(192::int) OR (uint n - 1) = 192 + (uint n - 1)" by simp
  then show ?thesis
    using u by (simp add: lead_def tag_RUN_def uint_byte)
qed

lemma small_delta: "is_within v (-2) 1 \<Longrightarrow> v = -2 \<or> v = -1 \<or> v = 0 \<or> v = 1"
  by (auto simp add: is_within_def)

lemma lead_DIFF:
  assumes "is_within vr (-2) 1" "is_within vg (-2) 1" "is_within vb (-2) 1"
  shows "64 \<le> lead (DIFF vr vg vb) \<and> lead (DIFF vr vg vb) \<le> 127"
  using small_delta [OF assms(1)] small_delta [OF assms(2)] small_delta [OF assms(3)]
  by (elim disjE) (simp_all add: lead_def tag_DIFF_def byte_def)

lemma lead_fixed:
  "lead LONG_RUN = 253" "lead (RGB pixel) = 254" "lead (RGBA pixel) = 255"
  by (simp_all add: lead_def byte_def tag_LONG_RUN_def tag_RGB_def tag_RGBA_def)

section \<open>The invariant of the codec state\<close>

lemma enc_inv_init: "enc_inv (init_state start_y)"
  by (simp add: enc_inv_def init_state_def)

lemma u8_nonzero: "(n :: u8) \<noteq> 0 \<Longrightarrow> 1 \<le> unat n"
  by (simp add: unat_gt_0 Suc_leI)

lemma enc_inv_flush: "enc_inv st \<Longrightarrow> enc_inv (flush_run st)"
  by (auto simp add: enc_inv_def flush_run_def dest: u8_nonzero)

lemma run_flush [simp]: "run (flush_run st) = 0"
  by (simp add: flush_run_def)

lemma index_flush [simp]: "index (flush_run st) = index st"
  by (simp add: flush_run_def)

lemma previous_flush [simp]: "previous_pixel (flush_run st) = previous_pixel st"
  by (simp add: flush_run_def)

lemma encode_pixel_other:
  assumes "pixel \<noteq> previous_pixel st"
  shows "\<exists>op. op_ok op \<and> run_length op = 0
            \<and> res (encode_pixel st pixel) = res (flush_run st) @ [op]
            \<and> previous_pixel (encode_pixel st pixel) = pixel
            \<and> run (encode_pixel st pixel) = 0"
  using assms by (simp add: encode_pixel_def Let_def pixel_hash_def)

lemma enc_inv_step:
  assumes "enc_inv st"
  shows "enc_inv (encode_pixel st pixel)"
proof (cases "pixel = previous_pixel st")
  case True
  have lt: "unat (run st) < 62" using assms by (simp add: enc_inv_def)
  show ?thesis
    using assms lt unfolding True encode_pixel_same
    by (auto simp add: enc_inv_def run_succ)
next
  case False
  from encode_pixel_other [OF False] obtain op where
    "op_ok op" "res (encode_pixel st pixel) = res (flush_run st) @ [op]"
    "run (encode_pixel st pixel) = 0" by blast
  then show ?thesis
    using enc_inv_flush [OF assms] by (simp add: enc_inv_def)
qed

lemma enc_inv_row:
  "enc_inv st \<Longrightarrow> encode_row img y xs st = Some st' \<Longrightarrow> enc_inv st'"
  by (induction xs arbitrary: st) (auto split: option.splits intro: enc_inv_step)

lemma enc_inv_rows:
  "enc_inv st \<Longrightarrow> encode_rows img ys st = Some st' \<Longrightarrow> enc_inv st'"
  by (induction ys arbitrary: st) (auto split: option.splits dest: enc_inv_row)

lemma encode_ops_ok:
  assumes "encode_ops img start_y end_y = Some ops"
  shows "list_all op_ok ops"
proof -
  from assms obtain st where
    st: "encode_rows img (row_range img start_y end_y) (init_state start_y) = Some st"
    and ops: "ops = res (flush_run st)"
    by (auto simp add: encode_ops_def split: option.splits)
  have "enc_inv st" using enc_inv_init st by (rule enc_inv_rows)
  then have "enc_inv (flush_run st)" by (rule enc_inv_flush)
  then show ?thesis by (simp add: enc_inv_def ops)
qed

section \<open>Subscripts of the index table\<close>






section \<open>The previous-pixel register (C3)\<close>

text \<open>
  Against C3 as written: the first pixel of a chunk is not compared with \<open>(0,0,0,0)\<close>.
  A first pixel \<open>(0,0,0,0)\<close> is not taken as a run (the encoder finds it in the index
  table), whereas a first pixel \<open>(0,0,0,255)\<close> is.
\<close>

theorem C3_counterexample:
  "previous_pixel (init_state 0) \<noteq> \<lparr>r = 0, g = 0, b = 0, a = 0\<rparr>
   \<and> encode_ops \<lparr>width = 1, height = 1, pixels = [\<lparr>r = 0, g = 0, b = 0, a = 0\<rparr>]\<rparr> 0 1
       = Some [INDEX 0]
   \<and> encode_ops \<lparr>width = 1, height = 1, pixels = [\<lparr>r = 0, g = 0, b = 0, a = 255\<rparr>]\<rparr> 0 1
       = Some [RUN 1]"
  by code_simp

text \<open>
  C3, amended: at the start of every chunk encoder invocation, whatever \<open>start_y\<close> is,
  the previous-pixel register holds the default-constructed pixel \<open>(0,0,0,255)\<close> and the
  run counter is 0; the first pixel of the chunk is counted as a run exactly when it
  equals \<open>(0,0,0,255)\<close>.
\<close>

theorem C3_previous_pixel_initial:
  "previous_pixel (init_state start_y) = \<lparr>r = 0, g = 0, b = 0, a = 255\<rparr>
   \<and> run (init_state start_y) = 0
   \<and> run (encode_pixel (init_state start_y) pixel)
       = (if pixel = \<lparr>r = 0, g = 0, b = 0, a = 255\<rparr> then 1 else 0)"
proof -
  have prev: "previous_pixel (init_state start_y) = \<lparr>r = 0, g = 0, b = 0, a = 255\<rparr>"
    by (simp add: init_state_def default_pixel_def)
  have run0: "run (init_state start_y) = 0"
    by (simp add: init_state_def)
  have "run (encode_pixel (init_state start_y) pixel) = 1"
    if "pixel = \<lparr>r = 0, g = 0, b = 0, a = 255\<rparr>"
    using encode_pixel_same [of "init_state start_y"] that by (simp add: prev run0)
  moreover have "run (encode_pixel (init_state start_y) pixel) = 0"
    if "pixel \<noteq> \<lparr>r = 0, g = 0, b = 0, a = 255\<rparr>"
    using encode_pixel_other [of pixel "init_state start_y"] that by (auto simp add: prev)
  ultimately show ?thesis using prev run0 by simp
qed

section \<open>Totality of the chunk encoder and out-of-bounds reads (C4)\<close>

lemma encodeQoi_returns:
  assumes "valid_image img" and "uint (reserve_request img start_y end_y) \<le> string_max_size"
  shows "encodeQoi img start_y end_y =
           Some (Inr ((if start_y = 0 then header img else [])
                      @ serialise (res (flush_run (foldl encode_pixel (init_state start_y)
                                                     (chunk_pixels img start_y end_y))))
                      @ (if end_y + 1 \<ge> height img then end_marker else [])))"
  using assms(2) by (simp add: encodeQoi_def encode_ops_valid [OF assms(1)])





section \<open>The planner with at least as many rows as workers\<close>

text \<open>
  With \<open>2 \<le> threads \<le> height\<close> the loop of \<open>main\<close> ends and launches exactly \<open>threads\<close>
  row ranges, which run from row 0 to row \<open>height\<close> without gap or overlap, each with
  at least one row.
\<close>

lemma chain_append:
  "chain lo (xs @ ys) hi \<longleftrightarrow> (\<exists>mid. chain lo xs mid \<and> chain mid ys hi)"
  by (induction xs arbitrary: lo) auto

lemma pack_loop_regular:
  assumes "0 < unat lpp"
  shows "unat end_y + n * unat lpp = unat h \<Longrightarrow> start_y < h \<Longrightarrow> unat start_y < unat end_y \<Longrightarrow>
         chain 0 acc (unat start_y) \<Longrightarrow>
         \<exists>ranges. pack_loop h lpp start_y end_y acc = Some ranges
                  \<and> chain 0 ranges (unat h) \<and> length ranges = length acc + Suc n"
proof (induction n arbitrary: start_y end_y acc)
  case 0
  then have "\<not> end_y < h" by (simp add: word_less_nat_alt)
  then have "pack_loop h lpp start_y end_y acc = Some (acc @ [(start_y, end_y)])"
    using "0.prems"(2) by (simp add: pack_loop.simps [of h lpp start_y] pack_loop.simps [of h lpp end_y])
  then show ?case using 0 by (auto simp add: chain_append)
next
  case (Suc n)
  have lt: "unat end_y + unat lpp \<le> unat h" using Suc.prems(1) by simp
  have bound: "unat h < 2 ^ LENGTH(64)" by (rule unsigned_less)
  have sum: "unat (end_y + lpp) = unat end_y + unat lpp"
    using lt bound by (simp add: unat_add_lem [THEN iffD1])
  have e: "end_y < h" using lt assms by (simp add: word_less_nat_alt)
  have step: "pack_loop h lpp start_y end_y acc = pack_loop h lpp end_y (end_y + lpp) (acc @ [(start_y, end_y)])"
    using Suc.prems(2) by (simp add: pack_loop.simps [of h lpp start_y])
  have "\<exists>ranges. pack_loop h lpp end_y (end_y + lpp) (acc @ [(start_y, end_y)]) = Some ranges
                  \<and> chain 0 ranges (unat h) \<and> length ranges = length (acc @ [(start_y, end_y)]) + Suc n"
  proof (rule Suc.IH)
    show "unat (end_y + lpp) + n * unat lpp = unat h" using Suc.prems(1) sum by simp
    show "end_y < h" by (rule e)
    show "unat end_y < unat (end_y + lpp)" using sum assms by simp
    show "chain 0 (acc @ [(start_y, end_y)]) (unat end_y)"
      using Suc.prems by (auto simp add: chain_append)
  qed
  then show ?case by (simp add: step)
qed

lemma unat_ucast_u32: "unat (ucast (t :: u32) :: size_t) = unat t"
proof -
  have "unat t < 2 ^ LENGTH(32)" by (rule unsigned_less)
  also have "(2 :: nat) ^ LENGTH(32) \<le> 2 ^ 64" by simp
  finally have "take_bit 64 (unat t) = unat t" by (rule take_bit_nat_eq_self)
  then show ?thesis by (simp add: unsigned_ucast_eq)
qed

lemma planned_chunks_regular:
  fixes threads :: u32 and h :: size_t
  assumes "2 \<le> unat threads" and "unat threads \<le> unat h"
  shows "\<exists>ranges. planned_chunks h threads = Some ranges
            \<and> chain 0 ranges (unat h) \<and> length ranges = unat threads"
proof -
  let ?T = "unat threads" and ?H = "unat h"
  let ?L = "?H div ?T"
  let ?lpp = "h div ucast threads"
  let ?first = "h - ucast (threads - 1) * ?lpp"
  have T: "unat (ucast threads :: size_t) = ?T"
    by (simp add: unat_ucast_u32)
  have L: "unat ?lpp = ?L"
    by (simp add: unat_div T)
  have Lpos: "1 \<le> ?L"
    using assms by (simp add: Suc_leI div_greater_zero_iff)
  have max: "max 1 ?lpp = ?lpp"
  proof -
    have "(1 :: size_t) \<le> ?lpp" using Lpos L by (simp add: word_le_nat_alt)
    then show ?thesis by (simp add: max_def)
  qed
  have T1: "unat (ucast (threads - 1) :: size_t) = ?T - 1"
  proof -
    have "unat (threads - 1) = ?T - 1"
      using assms(1) by (simp add: unat_sub word_le_nat_alt)
    then show ?thesis by (simp add: unat_ucast_u32)
  qed
  have TL: "?T * ?L \<le> ?H" by simp
  have prod_le: "(?T - 1) * ?L + ?L \<le> ?H"
  proof -
    from assms(1) obtain k where k: "?T = Suc k" by (cases ?T) auto
    have "(?T - 1) * ?L + ?L = ?T * ?L"
      unfolding k by simp
    then show ?thesis using TL by simp
  qed
  have bound: "?H < 2 ^ LENGTH(64)" by (rule unsigned_less)
  have prod: "unat (ucast (threads - 1) * ?lpp) = (?T - 1) * ?L"
  proof -
    have "(?T - 1) * ?L < 2 ^ LENGTH(64)" using prod_le bound by linarith
    then show ?thesis
      using unat_mult_lem [of "ucast (threads - 1) :: size_t" ?lpp] by (simp add: T1 L)
  qed
  have first: "unat ?first = ?H - (?T - 1) * ?L"
    using prod_le by (simp add: unat_sub word_le_nat_alt prod)
  have "\<exists>ranges. pack_loop h ?lpp 0 ?first [] = Some ranges
            \<and> chain 0 ranges (unat h) \<and> length ranges = length ([] :: (size_t \<times> size_t) list) + Suc (?T - 1)"
  proof (rule pack_loop_regular)
    show "0 < unat ?lpp" using Lpos L by simp
    show "unat ?first + (?T - 1) * unat ?lpp = ?H" using prod_le by (simp add: first L)
    show "0 < h" using assms by (simp add: word_less_nat_alt)
    show "unat (0 :: size_t) < unat ?first" using prod_le Lpos by (simp add: first)
    show "chain 0 [] (unat (0 :: size_t))" by simp
  qed
  then show ?thesis
    using assms(1) by (simp add: planned_chunks_def max Let_def)
qed


section \<open>Chunk planning and the assembled stream (C1, C2)\<close>

text \<open>
  C2: for \<open>H \<ge> 1\<close> rows and \<open>T \<ge> 1\<close> workers the planned row ranges are contiguous,
  cover \<open>[0, H)\<close> and each has length at least 1. The planner evaluated at one row and
  two workers, and at two rows and three workers: \<open>lines_first_pack\<close> is
  \<open>H - (T - 1) * 1 = 0\<close>, so the first range is the empty \<open>[0, 0)\<close> and the ranges
  are not a chain of non-empty ranges from row 0 to row \<open>H\<close>.
\<close>

theorem C2_empty_first_range:
  "planned_chunks 1 2 = Some [(0, 0), (0, 1)]
   \<and> \<not> chain 0 [(0, 0), (0, 1)] 1
   \<and> planned_chunks 2 3 = Some [(0, 0), (0, 1), (1, 2)]
   \<and> \<not> chain 0 [(0, 0), (0, 1), (1, 2)] 2"
  by code_simp

text \<open>
  C1: in the concatenated output the end marker appears once, at the very end, emitted
  only by the chunk containing the last row. The program evaluated on an image of
  width 1 and height 2 with two workers: the chunk of rows \<open>[0, 1)\<close>, which does not
  contain the last row, passes the test \<open>end_y + 1 >= height\<close> and ends with the
  marker, so the output carries the marker twice, once in the middle. On an image of
  height 1 with two workers the planned ranges are \<open>[0, 0)\<close> and \<open>[0, 1)\<close>; both start
  at row 0, and the output carries the header twice as well.
\<close>

theorem C1_end_marker_twice:
  "planned_chunks 2 2 = Some [(0, 1), (1, 2)]
   \<and> encodeQoi \<lparr>width = 1, height = 2,
        pixels = [\<lparr>r = 255, g = 0, b = 0, a = 255\<rparr>, \<lparr>r = 0, g = 255, b = 0, a = 255\<rparr>]\<rparr> 0 1
       = Some (Inr ([0x71, 0x6F, 0x69, 0x66, 0, 0, 0, 1, 0, 0, 0, 2, 4, 0] @ [0x5A]
                    @ [0, 0, 0, 0, 0, 0, 0, 1]))
   \<and> encode_image 2 \<lparr>width = 1, height = 2,
        pixels = [\<lparr>r = 255, g = 0, b = 0, a = 255\<rparr>, \<lparr>r = 0, g = 255, b = 0, a = 255\<rparr>]\<rparr>
       = Some ([0x71, 0x6F, 0x69, 0x66, 0, 0, 0, 1, 0, 0, 0, 2, 4, 0]
               @ [0x5A] @ [0, 0, 0, 0, 0, 0, 0, 1]
               @ [0x66] @ [0, 0, 0, 0, 0, 0, 0, 1], None)
   \<and> encode_image 2 \<lparr>width = 1, height = 1, pixels = [\<lparr>r = 255, g = 0, b = 0, a = 255\<rparr>]\<rparr>
       = Some ([0x71, 0x6F, 0x69, 0x66, 0, 0, 0, 1, 0, 0, 0, 1, 4, 0]
               @ [0, 0, 0, 0, 0, 0, 0, 1]
               @ [0x71, 0x6F, 0x69, 0x66, 0, 0, 0, 1, 0, 0, 0, 1, 4, 0]
               @ [0x5A] @ [0, 0, 0, 0, 0, 0, 0, 1], None)"
  by code_simp


section \<open>Single-threaded encodings of small images (C5, C6)\<close>

text \<open>
  Against C6 as written: the encoding of the 2\<times>1 image of two pixels \<open>(255,0,0,255)\<close>
  is not header, one RUN opcode of length 2, end marker, and is not 23 bytes long.
\<close>

theorem C6_counterexample:
  "map_option fst (encode_image 1 \<lparr>width = 2, height = 1,
      pixels = [\<lparr>r = 255, g = 0, b = 0, a = 255\<rparr>, \<lparr>r = 255, g = 0, b = 0, a = 255\<rparr>]\<rparr>)
     \<noteq> Some ([0x71, 0x6F, 0x69, 0x66, 0, 0, 0, 2, 0, 0, 0, 1, 4, 0]
              @ bytes_of (RUN 2) @ [0, 0, 0, 0, 0, 0, 0, 1])
   \<and> map_option (length \<circ> fst) (encode_image 1 \<lparr>width = 2, height = 1,
      pixels = [\<lparr>r = 255, g = 0, b = 0, a = 255\<rparr>, \<lparr>r = 255, g = 0, b = 0, a = 255\<rparr>]\<rparr>)
     \<noteq> Some 23"
  by code_simp

text \<open>
  C6, amended: for the 2\<times>1 image whose two pixels are both \<open>(255,0,0,255)\<close>, the
  single-threaded encoding is exactly the 14-byte header, one DIFF opcode byte \<open>0x5A\<close>
  for the first pixel (it differs from the initial previous pixel \<open>(0,0,0,255)\<close> by
  \<open>(-1,0,0)\<close> in signed 8-bit arithmetic), one RUN opcode byte \<open>0xC0\<close> encoding run
  length 1, and the 8-byte end marker, 24 bytes in all.
\<close>

theorem C6_two_pixel_image:
  "encode_ops \<lparr>width = 2, height = 1,
      pixels = [\<lparr>r = 255, g = 0, b = 0, a = 255\<rparr>, \<lparr>r = 255, g = 0, b = 0, a = 255\<rparr>]\<rparr> 0 1
     = Some [DIFF (- 1) 0 0, RUN 1]
   \<and> encode_image 1 \<lparr>width = 2, height = 1,
      pixels = [\<lparr>r = 255, g = 0, b = 0, a = 255\<rparr>, \<lparr>r = 255, g = 0, b = 0, a = 255\<rparr>]\<rparr>
     = Some ([0x71, 0x6F, 0x69, 0x66, 0, 0, 0, 2, 0, 0, 0, 1, 4, 0]
              @ [0x5A] @ [0xC0] @ [0, 0, 0, 0, 0, 0, 0, 1], None)
   \<and> map_option (length \<circ> fst) (encode_image 1 \<lparr>width = 2, height = 1,
      pixels = [\<lparr>r = 255, g = 0, b = 0, a = 255\<rparr>, \<lparr>r = 255, g = 0, b = 0, a = 255\<rparr>]\<rparr>)
     = Some 24"
  by code_simp

text \<open>
  Against C5 as written: for the pixel \<open>(255,0,0,255)\<close> repeated 200 times the encoding
  starts with a DIFF opcode for the first pixel, and the run lengths sum to 199.
\<close>

theorem C5_counterexample:
  "encode_ops \<lparr>width = 200, height = 1,
      pixels = replicate 200 \<lparr>r = 255, g = 0, b = 0, a = 255\<rparr>\<rparr> 0 1
     = Some [DIFF (- 1) 0 0, LONG_RUN, LONG_RUN, LONG_RUN, RUN 13]
   \<and> sum_list (map run_length [DIFF (- 1) 0 0, LONG_RUN, LONG_RUN, LONG_RUN, RUN 13]) = 199"
  by code_simp

lemma chunk_pixels_single_row:
  "chunk_pixels \<lparr>width = 200, height = 1, pixels = replicate 200 p\<rparr> 0 1 = replicate 200 p"
proof -
  have "map (\<lambda>x. replicate 200 p ! x) [0 ..< 200] = map (\<lambda>x. p) [0 ..< 200]"
    by (rule map_cong) simp_all
  also have "\<dots> = replicate 200 p"
    by (simp add: map_replicate_const)
  finally show ?thesis
    by (simp add: chunk_pixels_def row_range_def row_pixels_def)
qed

text \<open>
  C5, amended: for every image consisting of one pixel value repeated 200 times in a
  row, the single-threaded encoding codes the first pixel against the initial previous
  pixel \<open>(0,0,0,255)\<close>: as part of the run when it equals it, and otherwise by exactly
  one opcode that is not a run. The repeats after it are represented only by three
  LONG_RUN opcodes and one RUN opcode, with no INDEX, DIFF, LUMA, RGB or RGBA opcode;
  the run lengths sum to 200 when the pixel is \<open>(0,0,0,255)\<close> and to 199 otherwise.
\<close>

theorem C5_repeated_pixel:
  "\<exists>first.
     encode_ops \<lparr>width = 200, height = 1, pixels = replicate 200 p\<rparr> 0 1
       = Some (first @ [LONG_RUN, LONG_RUN, LONG_RUN, RUN (if p = default_pixel then 14 else 13)])
     \<and> encode_image 1 \<lparr>width = 200, height = 1, pixels = replicate 200 p\<rparr>
       = Some (header \<lparr>width = 200, height = 1, pixels = replicate 200 p\<rparr>
               @ serialise first @ [0xFD, 0xFD, 0xFD, if p = default_pixel then 0xCD else 0xCC]
               @ end_marker, None)
     \<and> (if p = default_pixel then first = []
         else \<exists>op. first = [op] \<and> run_length op = 0)
     \<and> sum_list (map run_length
           (first @ [LONG_RUN, LONG_RUN, LONG_RUN, RUN (if p = default_pixel then 14 else 13)]))
         = (if p = default_pixel then 200 else 199)"
proof -
  let ?img = "\<lparr>width = 200, height = 1, pixels = replicate 200 p\<rparr>"
  have v: "valid_image ?img" by (simp add: valid_image_def)
  have ops: "encode_ops ?img 0 1 =
      Some (res (flush_run (foldl encode_pixel (init_state 0) (replicate 200 p))))"
    by (simp only: encode_ops_valid [OF v] chunk_pixels_single_row)
  have enc: "encode_image 1 ?img =
      Some (header ?img @ serialise (res (flush_run (foldl encode_pixel (init_state 0) (replicate 200 p)))) @ end_marker, None)"
    by (simp add: encode_image_def encodeQoi_def ops reserve_request_def string_max_size_def)
  have tail_bytes: "serialise [LONG_RUN, LONG_RUN, LONG_RUN, RUN 14] = [0xFD, 0xFD, 0xFD, 0xCD]"
     "serialise [LONG_RUN, LONG_RUN, LONG_RUN, RUN 13] = [0xFD, 0xFD, 0xFD, 0xCC]"
    by (simp_all add: serialise_def byte_def tag_LONG_RUN_def tag_RUN_def)
  show ?thesis
  proof (cases "p = default_pixel")
    case True
    have "foldl encode_pixel (init_state 0) (replicate 200 p) =
            (init_state 0)\<lparr>res := res (init_state 0) @ replicate ((unat (run (init_state 0)) + 200) div 62) LONG_RUN,
                           run := of_nat ((unat (run (init_state 0)) + 200) mod 62)\<rparr>"
      by (rule encode_repeat) (simp_all add: init_state_def True)
    then have "res (flush_run (foldl encode_pixel (init_state 0) (replicate 200 p)))
                 = [LONG_RUN, LONG_RUN, LONG_RUN, RUN 14]"
      by (simp add: init_state_def flush_run_def numeral_3_eq_3)
    then show ?thesis
      using ops enc True tail_bytes by (intro exI [of _ "[]"]) (simp add: serialise_def)
  next
    case False
    let ?st1 = "encode_pixel (init_state 0) p"
    from False have "p \<noteq> previous_pixel (init_state 0)" by (simp add: init_state_def)
    from encode_pixel_other [OF this] obtain op where
      op: "run_length op = 0" "res ?st1 = [op]" "previous_pixel ?st1 = p" "run ?st1 = 0"
      by (auto simp add: flush_run_def init_state_def)
    have "foldl encode_pixel (init_state 0) (replicate 200 p) = foldl encode_pixel ?st1 (replicate 199 p)"
      by (simp add: numeral_eq_Suc)
    also have "\<dots> = ?st1\<lparr>res := res ?st1 @ replicate ((unat (run ?st1) + 199) div 62) LONG_RUN,
                           run := of_nat ((unat (run ?st1) + 199) mod 62)\<rparr>"
      by (rule encode_repeat) (simp_all add: op)
    finally have "res (flush_run (foldl encode_pixel (init_state 0) (replicate 200 p)))
                 = [op] @ [LONG_RUN, LONG_RUN, LONG_RUN, RUN 13]"
      by (simp add: op flush_run_def numeral_3_eq_3)
    then show ?thesis
      using ops enc False tail_bytes op by (intro exI [of _ "[op]"]) (simp add: serialise_def)
  qed
qed

theorem C5_repeated_pixel_witness:
  "encode_ops \<lparr>width = 200, height = 1, pixels = replicate 200 default_pixel\<rparr> 0 1
       = Some [LONG_RUN, LONG_RUN, LONG_RUN, RUN 14]"
  using C5_repeated_pixel [of default_pixel] by auto


section \<open>Choice of the DIFF opcode (C7)\<close>

lemma previous_pixel_step: "previous_pixel (encode_pixel st pixel) = pixel"
proof (cases "pixel = previous_pixel st")
  case True
  show ?thesis unfolding True encode_pixel_same by simp
next
  case False
  from encode_pixel_other [OF False] show ?thesis by blast
qed

lemma previous_pixel_last:
  "previous_pixel (foldl encode_pixel st (ps @ [pixel])) = pixel"
  by (simp add: previous_pixel_step)








section \<open>The end marker (C8)\<close>

text \<open>
  C8: a chunk encoder invocation that returns has appended the 8-byte end marker
  (seven zero bytes, then a byte of value 1) after the header and the opcodes if and
  only if \<open>end_y + 1 >= height\<close>, the sum being the \<open>size_t\<close> sum of the source; in
  particular the marker is appended when \<open>end_y = height - 1\<close>. The invocation returns
  on every valid image and every row range inside it whose reservation request is
  within \<open>max_size()\<close>.
\<close>

theorem C8_end_marker:
  "(\<forall>out. encodeQoi img start_y end_y = Some (Inr out) \<longrightarrow>
      (\<exists>ops. encode_ops img start_y end_y = Some ops
         \<and> out = (if start_y = 0 then header img else []) @ serialise ops
                   @ (if end_y + 1 \<ge> height img then [0, 0, 0, 0, 0, 0, 0, 1] else [])
         \<and> (end_y = height img - 1 \<longrightarrow>
              out = (if start_y = 0 then header img else []) @ serialise ops
                      @ [0, 0, 0, 0, 0, 0, 0, 1])))
   \<and> (valid_image img \<and> start_y \<le> end_y \<and> end_y \<le> height img
        \<and> uint (reserve_request img start_y end_y) \<le> string_max_size
        \<longrightarrow> (\<exists>out. encodeQoi img start_y end_y = Some (Inr out)))"
proof (intro conjI allI impI)
  fix out
  assume "encodeQoi img start_y end_y = Some (Inr out)"
  moreover have "end_marker = [0, 0, 0, 0, 0, 0, 0, 1]"
    by (simp add: end_marker_def numeral_eq_Suc)
  ultimately show "\<exists>ops. encode_ops img start_y end_y = Some ops
         \<and> out = (if start_y = 0 then header img else []) @ serialise ops
                   @ (if end_y + 1 \<ge> height img then [0, 0, 0, 0, 0, 0, 0, 1] else [])
         \<and> (end_y = height img - 1 \<longrightarrow>
              out = (if start_y = 0 then header img else []) @ serialise ops
                      @ [0, 0, 0, 0, 0, 0, 0, 1])"
    by (auto simp add: encodeQoi_def split: if_splits option.splits)
next
  assume "valid_image img \<and> start_y \<le> end_y \<and> end_y \<le> height img
            \<and> uint (reserve_request img start_y end_y) \<le> string_max_size"
  then show "\<exists>out. encodeQoi img start_y end_y = Some (Inr out)"
    by (simp add: encodeQoi_returns)
qed

theorem C8_end_marker_witness:
  "encodeQoi \<lparr>width = 1, height = 3,
      pixels = [\<lparr>r = 1, g = 0, b = 255, a = 255\<rparr>, \<lparr>r = 1, g = 0, b = 255, a = 255\<rparr>,
                \<lparr>r = 1, g = 0, b = 255, a = 255\<rparr>]\<rparr> 1 2
     = Some (Inr (serialise [DIFF 1 0 (- 1)] @ [0, 0, 0, 0, 0, 0, 0, 1]))"
proof -
  let ?img = "\<lparr>width = 1, height = 3,
      pixels = [\<lparr>r = 1, g = 0, b = 255, a = 255\<rparr>, \<lparr>r = 1, g = 0, b = 255, a = 255\<rparr>,
                \<lparr>r = 1, g = 0, b = 255, a = 255\<rparr>]\<rparr>"
  have v: "valid_image ?img \<and> (1 :: size_t) \<le> 2 \<and> (2 :: size_t) \<le> height ?img
             \<and> uint (reserve_request ?img 1 2) \<le> string_max_size"
    by (simp add: valid_image_def reserve_request_def string_max_size_def)
  have ops: "encode_ops ?img 1 2 = Some [DIFF 1 0 (- 1)]" by code_simp
  note shape = C8_end_marker [of ?img 1 2, THEN conjunct1, rule_format]
  note returns = C8_end_marker [of ?img 1 2, THEN conjunct2, rule_format]
  from returns [OF v] obtain out where out: "encodeQoi ?img 1 2 = Some (Inr out)" ..
  have "out = serialise [DIFF 1 0 (- 1)] @ [0, 0, 0, 0, 0, 0, 0, 1]"
    using shape [OF out] by (simp only: ops) simp
  then show ?thesis using out by simp
qed

section \<open>The worker count (C9)\<close>






section \<open>Opcode tags (C10)\<close>

lemma op_ok_lead:
  assumes "op_ok op"
  shows "(\<forall>n. op = RUN n \<longrightarrow> lead op = 0xC0 + (uint n - 1) \<and> 0xC0 \<le> lead op \<and> lead op \<le> 0xFC)
         \<and> (lead op = 0xFD \<longleftrightarrow> op = LONG_RUN)
         \<and> (lead op = 0xFE \<longleftrightarrow> (\<exists>pixel. op = RGB pixel))
         \<and> (lead op = 0xFF \<longleftrightarrow> (\<exists>pixel. op = RGBA pixel))"
proof (cases op)
  case (INDEX hash)
  then show ?thesis using assms by (simp add: lead_INDEX)
next
  case (DIFF vr vg vb)
  then show ?thesis using assms lead_DIFF [of vr vg vb] by simp
next
  case (LUMA vg vg_r vg_b)
  then show ?thesis using assms by (simp add: lead_LUMA is_within_def)
next
  case (RUN n)
  have un: "uint n = int (unat n)" by (rule uint_nat)
  have n: "1 \<le> unat n" "unat n \<le> 61" using assms by (simp_all add: RUN)
  have u: "1 \<le> uint n" "uint n \<le> 61" using n unfolding un by linarith+
  show ?thesis using u by (simp add: RUN lead_RUN [OF n])
next
  case LONG_RUN
  then show ?thesis by (simp add: lead_fixed)
next
  case (RGB pixel)
  then show ?thesis by (simp add: lead_fixed)
next
  case (RGBA pixel)
  then show ?thesis by (simp add: lead_fixed)
qed

text \<open>
  C10: every RUN opcode among the opcodes of a chunk carries a length between 1 and
  61 and is the single byte \<open>0xC0 + (length - 1)\<close>, which lies in \<open>0xC0..0xFC\<close>; an
  opcode begins with the byte \<open>0xFD\<close>, \<open>0xFE\<close> or \<open>0xFF\<close> only if it is LONG_RUN, RGB or
  RGBA respectively. (The bytes after an opcode's first byte are pixel data and may
  take any value.)
\<close>

theorem C10_run_opcode_range:
  assumes "encode_ops img start_y end_y = Some ops" and "op \<in> set ops"
  shows "(\<forall>n. op = RUN n \<longrightarrow>
            1 \<le> unat n \<and> unat n \<le> 61 \<and> run_length op = unat n
            \<and> bytes_of op = [hd (bytes_of op)]
            \<and> lead op = 0xC0 + (uint n - 1) \<and> 0xC0 \<le> lead op \<and> lead op \<le> 0xFC)
         \<and> (lead op = 0xFD \<longleftrightarrow> op = LONG_RUN)
         \<and> (lead op = 0xFE \<longleftrightarrow> (\<exists>pixel. op = RGB pixel))
         \<and> (lead op = 0xFF \<longleftrightarrow> (\<exists>pixel. op = RGBA pixel))"
proof -
  have ok: "op_ok op"
    using encode_ops_ok [OF assms(1)] assms(2) by (simp add: list_all_iff)
  have "\<forall>n. op = RUN n \<longrightarrow> 1 \<le> unat n \<and> unat n \<le> 61 \<and> run_length op = unat n
            \<and> bytes_of op = [hd (bytes_of op)]"
    using ok by auto
  then show ?thesis using op_ok_lead [OF ok] by blast
qed

theorem C10_run_opcode_range_witness:
  "lead (RUN 13) = 0xCC \<and> lead (RUN 13) \<noteq> 0xFD \<and> lead LONG_RUN = 0xFD"
proof -
  let ?img = "\<lparr>width = 200, height = 1,
      pixels = replicate 200 \<lparr>r = 255, g = 0, b = 0, a = 255\<rparr>\<rparr>"
  have ops: "encode_ops ?img 0 1 = Some [DIFF (- 1) 0 0, LONG_RUN, LONG_RUN, LONG_RUN, RUN 13]"
    by code_simp
  have 1: "RUN 13 \<in> set [DIFF (- 1) 0 0, LONG_RUN, LONG_RUN, LONG_RUN, RUN 13]" by simp
  have 2: "LONG_RUN \<in> set [DIFF (- 1) 0 0, LONG_RUN, LONG_RUN, LONG_RUN, RUN 13]" by simp
  show ?thesis
    using C10_run_opcode_range [OF ops 1] C10_run_opcode_range [OF ops 2] by simp
qed

end
